theory Spec2Isabelle
  imports Complex_Main
begin

section \<open>Detections and the person classifier (WebcamDetector.tsx, detect)\<close>

text \<open>
  A bounding box is the array \<open>[x, y, w, h]\<close> of the detection model; JavaScript
  numbers are modelled as reals. A guarded denominator \<open>d || 1\<close> is \<open>orOne d\<close>.
\<close>

type_synonym bbox = "real \<times> real \<times> real \<times> real"

record detection =
  class_name :: string
  score :: real
  bbox :: bbox

record person_detection =
  obj :: detection
  isChild :: bool

definition orOne :: "real \<Rightarrow> real" where
  "orOne d = (if d = 0 then 1 else d)"

definition isRealPerson :: "real \<Rightarrow> bbox \<Rightarrow> bool" where
  "isRealPerson frameArea b =
     (case b of (x, y, w, h) \<Rightarrow>
        let aspectRatio = h / orOne w;
            areaRatio = (w * h) / orOne frameArea;
            minDim = min w h
        in if aspectRatio < 0.55 then False
           else if areaRatio > 0.70 then False
           else if minDim < 25 then False
           else True)"

definition rawPeople :: "detection list \<Rightarrow> detection list" where
  "rawPeople predictions =
     filter (\<lambda>p. class_name p = ''person'' \<and> score p > 0.40) predictions"

text \<open>The body of the \<open>map\<close> callback: \<open>None\<close> is the \<open>null\<close> that \<open>filter(Boolean)\<close> drops.\<close>

definition classify_one :: "real \<Rightarrow> detection \<Rightarrow> person_detection option" where
  "classify_one frameArea p =
     (case bbox p of (x, y, w, h) \<Rightarrow>
        let areaRatio = (w * h) / orOne frameArea;
            child = (score p < 0.60 \<and> areaRatio < 0.12 \<and> h / orOne w > 0.85)
        in if \<not> child \<and> score p < 0.50 then None
           else Some \<lparr>obj = p, isChild = child\<rparr>)"

definition classified :: "real \<Rightarrow> detection list \<Rightarrow> person_detection list" where
  "classified frameArea predictions =
     List.map_filter (classify_one frameArea)
       (filter (\<lambda>p. isRealPerson frameArea (bbox p)) (rawPeople predictions))"

definition people :: "real \<Rightarrow> detection list \<Rightarrow> detection list" where
  "people frameArea predictions = map obj (classified frameArea predictions)"

section \<open>Occupancy counter (WebcamDetector.tsx, detect, statsRef and prevCountRef)\<close>

record DetectionStats =
  currentCount :: nat
  totalIn :: nat
  totalOut :: nat
  peakCount :: nat
  detections :: "detection list"
  childCount :: nat
  adultCount :: nat

text \<open>The counters a session starts with, and \<open>prevCountRef = 0\<close>.\<close>

definition stats0 :: DetectionStats where
  "stats0 = \<lparr>currentCount = 0, totalIn = 0, totalOut = 0, peakCount = 0,
             detections = [], childCount = 0, adultCount = 0\<rparr>"

text \<open>
  The counter update at the end of one frame. The state is \<open>statsRef.current\<close> paired
  with \<open>prevCountRef.current\<close>; the frame is its classified list.
\<close>

definition update_stats ::
  "person_detection list \<Rightarrow> DetectionStats \<times> nat \<Rightarrow> DetectionStats \<times> nat" where
  "update_stats cls st =
     (case st of (stats, prevCount) \<Rightarrow>
        let count = length (map obj cls);
            children = length (filter isChild cls);
            adults = count - children;
            s1 = (if count > prevCount
                  then stats\<lparr>totalIn := totalIn stats + (count - prevCount)\<rparr>
                  else if count < prevCount \<and> prevCount > 0
                  then stats\<lparr>totalOut := totalOut stats + (prevCount - count)\<rparr>
                  else stats);
            s2 = s1\<lparr>currentCount := count, childCount := children, adultCount := adults\<rparr>;
            s3 = (if count > peakCount s2 then s2\<lparr>peakCount := count\<rparr> else s2);
            s4 = s3\<lparr>detections := map obj cls\<rparr>
        in (s4, count))"

fun replay_frames ::
  "person_detection list list \<Rightarrow> DetectionStats \<times> nat \<Rightarrow> DetectionStats \<times> nat" where
  "replay_frames [] st = st"
| "replay_frames (cls # rest) st = replay_frames rest (update_stats cls st)"

text \<open>
  The delta rule as the specification words it, on the bare counts: given the frame's
  count \<open>c\<close> and the previous count \<open>p\<close>, with the state
  \<open>(totalIn, totalOut, peakCount, p)\<close>.
\<close>

fun delta_rule :: "nat list \<Rightarrow> nat \<times> nat \<times> nat \<times> nat \<Rightarrow> nat \<times> nat \<times> nat \<times> nat" where
  "delta_rule [] acc = acc"
| "delta_rule (c # cs) (tin, tout, peak, p) =
     delta_rule cs
       (if c > p then (tin + (c - p), tout, max peak c, c)
        else if c < p \<and> p > 0 then (tin, tout + (p - c), max peak c, c)
        else (tin, tout, max peak c, c))"

definition counters :: "DetectionStats \<times> nat \<Rightarrow> nat \<times> nat \<times> nat \<times> nat" where
  "counters st = (totalIn (fst st), totalOut (fst st), peakCount (fst st), snd st)"

text \<open>A frame with \<open>n\<close> classified people, for replaying bare counts.\<close>

definition frame_of_count :: "nat \<Rightarrow> person_detection list" where
  "frame_of_count n =
     replicate n \<lparr>obj = \<lparr>class_name = ''person'', score = 0.9, bbox = (0, 0, 50, 100)\<rparr>,
                  isChild = False\<rparr>"

section \<open>Identity tracker (WebcamDetector.tsx, detect, personHistoryRef and prevBboxRef)\<close>

text \<open>
  History keys are the template strings \<open>person_<pi>\<close> and \<open>person_new_<now>_<ci>\<close>;
  the two shapes never collide, so they are the constructors of a datatype. Times are
  \<open>Date.now()\<close> in milliseconds. A stored position is \<open>[cx, cy, w, h]\<close>.
\<close>

datatype key = Person nat | PersonNew int nat

record entry =
  positions :: "bbox list"
  firstSeen :: int

type_synonym history = "key \<rightharpoonup> entry"

datatype severity = Info | Warning | Danger

text \<open>A JavaScript string, as the list of its code points.\<close>

type_synonym jsstring = "nat list"

definition js :: "string \<Rightarrow> jsstring" where
  "js s = map of_char s"

type_synonym alert = "jsstring \<times> severity"

definition fall_message :: jsstring where
  "fall_message = js ''FALL DETECTED '' @ [8212] @ js '' Person may have fallen down!''"

definition hypot :: "real \<Rightarrow> real \<Rightarrow> real" where
  "hypot a b = sqrt (a * a + b * b)"

definition center :: "bbox \<Rightarrow> real \<times> real" where
  "center b = (case b of (x, y, w, h) \<Rightarrow> (x + w / 2, y + h / 2))"

text \<open>\<open>xs.slice(-n)\<close>: the last \<open>n\<close> elements, all of them when there are fewer.\<close>

definition slice_last :: "nat \<Rightarrow> 'a list \<Rightarrow> 'a list" where
  "slice_last n xs = drop (length xs - n) xs"

text \<open>\<open>dist < bestDist\<close>, where \<open>bestDist\<close> starts at \<open>Infinity\<close> (\<open>None\<close>).\<close>

definition below_best :: "real \<Rightarrow> real option \<Rightarrow> bool" where
  "below_best d bestDist = (case bestDist of None \<Rightarrow> True | Some b \<Rightarrow> d < b)"

text \<open>
  The inner \<open>prevBboxes.forEach((pbox, pi) => ...)\<close> with \<open>pidx\<close> for the index \<open>pi\<close> and
  \<open>d\<close> for \<open>dist\<close>, carrying \<open>(bestDist, bestKey)\<close>;
  the empty string \<open>bestKey\<close> starts with is \<open>None\<close>.
\<close>

fun scan_prev ::
  "nat set \<Rightarrow> real \<Rightarrow> real \<Rightarrow> bbox list \<Rightarrow> nat \<Rightarrow> real option \<times> key option
     \<Rightarrow> real option \<times> key option" where
  "scan_prev matched cx cy [] pidx best = best"
| "scan_prev matched cx cy (pbox # rest) pidx best =
     scan_prev matched cx cy rest (Suc pidx)
       (if pidx \<in> matched then best
        else let d = hypot (cx - fst (center pbox)) (cy - snd (center pbox))
             in if below_best d (fst best) \<and> d < 150
                then (Some d, Some (Person pidx))
                else best)"

text \<open>\<open>const key = bestKey || `person_new_${now}_${ci}`\<close>.\<close>

definition assign_key :: "int \<Rightarrow> bbox list \<Rightarrow> nat set \<Rightarrow> bbox \<Rightarrow> nat \<Rightarrow> key" where
  "assign_key now prevBboxes matched b ci =
     (case snd (scan_prev matched (fst (center b)) (snd (center b)) prevBboxes 0 (None, None)) of
        Some k \<Rightarrow> k
      | None \<Rightarrow> PersonNew now ci)"

text \<open>\<open>p[3] / (p[2] || 1)\<close> of a stored position \<open>p\<close>.\<close>

definition heightRatio :: "bbox \<Rightarrow> real" where
  "heightRatio p = (case p of (cx, cy, w, h) \<Rightarrow> h / orOne w)"

text \<open>The fall test on an entry's positions, after the push of this frame.\<close>

definition fall_check :: "bbox list \<Rightarrow> bool" where
  "fall_check ps =
     (if length ps > 5
      then let recent = slice_last 5 ps;
               heightRatios = map heightRatio recent
           in hd heightRatios > 1.3 \<and> last heightRatios < 0.9
      else False)"

text \<open>
  The body of \<open>currentBboxes.forEach((bbox, ci) => ...)\<close>: the state is the history map
  and the calls of \<open>onAlert\<close> made so far.
\<close>

definition track_detection ::
  "int \<Rightarrow> bbox list \<Rightarrow> nat set \<Rightarrow> bbox \<Rightarrow> nat \<Rightarrow> history \<times> alert list
     \<Rightarrow> history \<times> alert list" where
  "track_detection now prevBboxes matched b ci st =
     (case st of (hist, alerts) \<Rightarrow>
        let k = assign_key now prevBboxes matched b ci;
            e = (case hist k of None \<Rightarrow> \<lparr>positions = [], firstSeen = now\<rparr> | Some e0 \<Rightarrow> e0);
            pushed = positions e @ [(fst (center b), snd (center b), fst (snd (snd b)), snd (snd (snd b)))];
            kept = (if length pushed > 30 then tl pushed else pushed)
        in (hist(k \<mapsto> e\<lparr>positions := kept\<rparr>),
            if fall_check kept then alerts @ [(fall_message, Danger)] else alerts))"

fun track_all ::
  "int \<Rightarrow> bbox list \<Rightarrow> nat set \<Rightarrow> bbox list \<Rightarrow> nat \<Rightarrow> history \<times> alert list
     \<Rightarrow> history \<times> alert list" where
  "track_all now prevBboxes matched [] ci st = st"
| "track_all now prevBboxes matched (b # bs) ci st =
     track_all now prevBboxes matched bs (Suc ci)
       (track_detection now prevBboxes matched b ci st)"

text \<open>The sweep \<open>for (const [key, val] of history.entries()) ...\<close>.\<close>

definition sweep :: "int \<Rightarrow> history \<Rightarrow> history" where
  "sweep now hist =
     (\<lambda>k. case hist k of
            None \<Rightarrow> None
          | Some val \<Rightarrow>
              if now - firstSeen val > 60000 \<and> length (positions val) < 2 then None
              else Some val)"

record tracker =
  prevBbox :: "bbox list"
  personHistory :: history

definition tracker0 :: tracker where
  "tracker0 = \<lparr>prevBbox = [], personHistory = Map.empty\<rparr>"

text \<open>
  The tracker part of one frame: \<open>matched\<close> is a fresh empty set, the detections are
  processed in order, \<open>prevBboxRef\<close> takes the current boxes, then the sweep runs.
  The history before the sweep is \<open>tracked_history\<close>, and \<open>frame_alerts\<close> are the calls
  of \<open>onAlert\<close> the tracker loop makes (the fall alerts); the altercation, rush, animal and
  overcrowding alerts of \<open>detect\<close> read neither the history nor the counters' totals and
  are left out.
\<close>

definition tracked_history :: "int \<Rightarrow> bbox list \<Rightarrow> tracker \<Rightarrow> history" where
  "tracked_history now currentBboxes tr =
     fst (track_all now (prevBbox tr) {} currentBboxes 0 (personHistory tr, []))"

definition frame_alerts :: "int \<Rightarrow> bbox list \<Rightarrow> tracker \<Rightarrow> alert list" where
  "frame_alerts now currentBboxes tr =
     snd (track_all now (prevBbox tr) {} currentBboxes 0 (personHistory tr, []))"

definition track_frame :: "int \<Rightarrow> bbox list \<Rightarrow> tracker \<Rightarrow> tracker" where
  "track_frame now currentBboxes tr =
     \<lparr>prevBbox = currentBboxes,
      personHistory = sweep now (tracked_history now currentBboxes tr)\<rparr>"

text \<open>
  \<open>const currentBboxes = people.map((p) => [...p.bbox])\<close>, and the tracker part of
  \<open>detect\<close> on the raw predictions of a frame: only the boxes of the classified people
  reach the tracker loop.
\<close>

definition currentBboxes :: "real \<Rightarrow> detection list \<Rightarrow> bbox list" where
  "currentBboxes frameArea predictions = map bbox (people frameArea predictions)"

definition detect_tracker :: "int \<Rightarrow> real \<Rightarrow> detection list \<Rightarrow> tracker \<Rightarrow> tracker" where
  "detect_tracker now frameArea predictions tr =
     track_frame now (currentBboxes frameArea predictions) tr"

fun run_frames :: "(int \<times> bbox list) list \<Rightarrow> tracker \<Rightarrow> tracker" where
  "run_frames [] tr = tr"
| "run_frames (f # fs) tr = run_frames fs (track_frame (fst f) (snd f) tr)"

text \<open>
  An observation of a run, not program state: the time of the latest frame in which a
  position was appended under each key. The key a detection is filed under depends on
  the previous boxes, the time and the index only.
\<close>

fun note_updates ::
  "int \<Rightarrow> bbox list \<Rightarrow> bbox list \<Rightarrow> nat \<Rightarrow> (key \<rightharpoonup> int) \<Rightarrow> (key \<rightharpoonup> int)" where
  "note_updates now prevBboxes [] ci upd = upd"
| "note_updates now prevBboxes (b # bs) ci upd =
     note_updates now prevBboxes bs (Suc ci) (upd(assign_key now prevBboxes {} b ci \<mapsto> now))"

fun last_updated ::
  "(int \<times> bbox list) list \<Rightarrow> bbox list \<Rightarrow> (key \<rightharpoonup> int) \<Rightarrow> (key \<rightharpoonup> int)" where
  "last_updated [] prevBboxes upd = upd"
| "last_updated (f # fs) prevBboxes upd =
     last_updated fs (snd f) (note_updates (fst f) prevBboxes (snd f) 0 upd)"

section \<open>Voice queue (hooks/useVoiceAlert)\<close>

text \<open>
  The hook's refs and state, and two observations of the speech engine it drives:
  \<open>engine\<close> holds the utterances handed to \<open>synth.speak\<close> whose \<open>onend\<close> or \<open>onerror\<close>
  has not fired yet (the head is the one being spoken), and \<open>spoken\<close> is the trace of all
  \<open>synth.speak\<close> calls. \<open>synth\<close> says that \<open>synthRef.current\<close> is set.
\<close>

record voice =
  synth :: bool
  queue :: "jsstring list"
  isSpeakingRef :: bool
  lastSpoken :: "jsstring \<rightharpoonup> int"
  voiceEnabled :: bool
  isSpeaking :: bool
  engine :: "jsstring list"
  spoken :: "jsstring list"

definition voice0 :: voice where
  "voice0 = \<lparr>synth = True, queue = [], isSpeakingRef = False, lastSpoken = Map.empty,
             voiceEnabled = True, isSpeaking = False, engine = [], spoken = []\<rparr>"

text \<open>\<open>[a-zA-Z ]\<close>, and \<open>toLowerCase\<close> on what that class lets through.\<close>

definition letter_or_space :: "nat \<Rightarrow> bool" where
  "letter_or_space c = ((97 \<le> c \<and> c \<le> 122) \<or> (65 \<le> c \<and> c \<le> 90) \<or> c = 32)"

definition toLowerCase :: "nat \<Rightarrow> nat" where
  "toLowerCase c = (if 65 \<le> c \<and> c \<le> 90 then c + 32 else c)"

text \<open>\<open>message.replace(/[^a-zA-Z ]/g, "").toLowerCase().slice(0, 40)\<close>.\<close>

definition dedup_key :: "jsstring \<Rightarrow> jsstring" where
  "dedup_key message = take 40 (map toLowerCase (filter letter_or_space message))"

text \<open>The code points \<open>trim\<close> strips: ECMAScript's white space and line terminators.\<close>

definition white_space :: "nat \<Rightarrow> bool" where
  "white_space c =
     (c \<in> {9, 10, 11, 12, 13, 32, 160, 5760, 8232, 8233, 8239, 8287, 12288, 65279}
      \<or> (8192 \<le> c \<and> c \<le> 8202))"

definition trim :: "jsstring \<Rightarrow> jsstring" where
  "trim s = rev (dropWhile white_space (rev (dropWhile white_space s)))"

text \<open>\<open>message.replace(/[\u{1F600}-\u{1FFFF}]/gu, "").trim()\<close>.\<close>

definition clean :: "jsstring \<Rightarrow> jsstring" where
  "clean message = trim (filter (\<lambda>c. \<not> (128512 \<le> c \<and> c \<le> 131071)) message)"

definition speakNext :: "voice \<Rightarrow> voice" where
  "speakNext v =
     (if \<not> synth v \<or> length (queue v) = 0 \<or> isSpeakingRef v then v
      else case queue v of
             [] \<Rightarrow> v
           | text # rest \<Rightarrow>
               v\<lparr>queue := rest, isSpeakingRef := True, isSpeaking := True,
                 engine := engine v @ [text], spoken := spoken v @ [text]\<rparr>)"

text \<open>
  Whether \<open>speak\<close> gets past its two early returns. Both reads of \<open>Date.now()\<close> in one
  call are the same instant \<open>now\<close>; \<open>get(key) || 0\<close> is 0 for a key not recorded.
\<close>

definition speak_accepts :: "jsstring \<Rightarrow> int \<Rightarrow> int \<Rightarrow> voice \<Rightarrow> bool" where
  "speak_accepts message cooldownMs now v =
     (if \<not> voiceEnabled v \<or> \<not> synth v then False
      else let lastTime = (case lastSpoken v (dedup_key message) of None \<Rightarrow> 0 | Some t \<Rightarrow> t)
           in \<not> (now - lastTime < cooldownMs))"

definition speak :: "jsstring \<Rightarrow> int \<Rightarrow> int \<Rightarrow> voice \<Rightarrow> voice" where
  "speak message cooldownMs now v =
     (if speak_accepts message cooldownMs now v
      then speakNext
             (v\<lparr>lastSpoken := (lastSpoken v)(dedup_key message \<mapsto> now),
               queue := queue v @ [clean message]\<rparr>)
      else v)"

text \<open>The handlers \<open>utterance.onend\<close> and \<open>utterance.onerror\<close> have one body.\<close>

definition onend :: "voice \<Rightarrow> voice" where
  "onend v = speakNext (v\<lparr>isSpeakingRef := False, isSpeaking := False\<rparr>)"

definition onerror :: "voice \<Rightarrow> voice" where
  "onerror v = speakNext (v\<lparr>isSpeakingRef := False, isSpeaking := False\<rparr>)"

text \<open>
  What can happen to the hook between renders: a call \<open>speak(message, cooldownMs)\<close> at
  time \<open>now\<close>, or the engine finishing (or failing) the utterance it is speaking, which
  fires that utterance's handler. With no utterance at the engine no handler can fire.
\<close>

datatype event = Speak jsstring int int | Ended | Errored

fun step :: "event \<Rightarrow> voice \<Rightarrow> voice" where
  "step (Speak message cooldownMs now) v = speak message cooldownMs now v"
| "step Ended v = (case engine v of [] \<Rightarrow> v | u # us \<Rightarrow> onend (v\<lparr>engine := us\<rparr>))"
| "step Errored v = (case engine v of [] \<Rightarrow> v | u # us \<Rightarrow> onerror (v\<lparr>engine := us\<rparr>))"

fun run :: "event list \<Rightarrow> voice \<Rightarrow> voice" where
  "run [] v = v"
| "run (ev # evs) v = run evs (step ev v)"

text \<open>The texts a run pushes on the queue, in the order of the pushes.\<close>

fun enqueued :: "event list \<Rightarrow> voice \<Rightarrow> jsstring list" where
  "enqueued [] v = []"
| "enqueued (Speak message cooldownMs now # evs) v =
     (if speak_accepts message cooldownMs now v then [clean message] else [])
       @ enqueued evs (step (Speak message cooldownMs now) v)"
| "enqueued (ev # evs) v = enqueued evs (step ev v)"

section \<open>Alert dispatcher (pages/Index.tsx, handleAlert)\<close>

record AlertEntry =
  time :: jsstring
  message :: jsstring
  severity :: severity

record app =
  alerts :: "AlertEntry list"
  toastAlert :: "AlertEntry option"
  voiceAlert :: voice

definition app0 :: app where
  "app0 = \<lparr>alerts = [], toastAlert = None, voiceAlert = voice0\<rparr>"

definition cooldown :: "severity \<Rightarrow> int" where
  "cooldown sev = (if sev = Danger then 6000 else if sev = Warning then 10000 else 15000)"

text \<open>
  \<open>handleAlert(message, severity)\<close>; \<open>tm\<close> is \<open>new Date().toLocaleTimeString()\<close> and
  \<open>now\<close> the \<open>Date.now()\<close> that \<open>speak\<close> reads.
\<close>

definition handleAlert :: "jsstring \<Rightarrow> int \<Rightarrow> jsstring \<Rightarrow> severity \<Rightarrow> app \<Rightarrow> app" where
  "handleAlert tm now msg sev a =
     (let ent = \<lparr>time = tm, message = msg, severity = sev\<rparr>;
          prev = alerts a
      in a\<lparr>alerts := (if length prev > 0 \<and> message (last prev) = msg then prev
                      else slice_last 50 (prev @ [ent])),
           toastAlert := Some ent,
           voiceAlert := speak msg (cooldown sev) now (voiceAlert a)\<rparr>)"

text \<open>Submitting candidate alerts one after the other, each as \<open>(time, now, message, severity)\<close>.\<close>

fun submit_all :: "(jsstring \<times> int \<times> jsstring \<times> severity) list \<Rightarrow> app \<Rightarrow> app" where
  "submit_all [] a = a"
| "submit_all (c # cs) a =
     submit_all cs (handleAlert (fst c) (fst (snd c)) (fst (snd (snd c))) (snd (snd (snd c))) a)"

section \<open>Occupancy counter: replay and the delta rule\<close>

lemma counters_update_stats:
  "counters (update_stats cls st) = delta_rule [length cls] (counters st)"
  by (cases st) (simp add: update_stats_def counters_def Let_def max_def)

lemma counters_replay_frames:
  "counters (replay_frames fs st) = delta_rule (map length fs) (counters st)"
proof (induction fs arbitrary: st)
  case Nil
  show ?case by (cases "counters st") simp
next
  case (Cons cls rest)
  obtain a b c d where cs: "counters st = (a, b, c, d)" by (cases "counters st") auto
  have "counters (update_stats cls st) = delta_rule [length cls] (a, b, c, d)"
    by (simp only: counters_update_stats cs)
  then show ?case using Cons.IH [of "update_stats cls st"] cs by simp
qed

lemma currentCount_replay_frames:
  "currentCount (fst (replay_frames fs st)) = last (currentCount (fst st) # map length fs)"
  by (induction fs arbitrary: st) (auto simp: update_stats_def Let_def split: prod.splits)

lemma length_frame_of_count: "map length (map frame_of_count cs) = cs"
  by (induction cs) (simp_all add: frame_of_count_def)

text \<open>
  Claim C1. Starting from zeroed counters, replaying the frames of any sequence of
  classified person counts through the counter update of \<open>detect\<close> gives exactly the
  \<open>totalIn\<close>, \<open>totalOut\<close> and \<open>peakCount\<close> (and previous count) that the stated delta rule
  gives on those counts, \<open>currentCount\<close> is the last count, and the counts
  \<open>[0, 2, 1, 3, 0]\<close> give \<open>totalIn = 4\<close>, \<open>totalOut = 4\<close>, \<open>peakCount = 3\<close>.
\<close>

theorem occupancy_replay_delta_rule:
  "counters (replay_frames fs (stats0, 0)) = delta_rule (map length fs) (0, 0, 0, 0)
   \<and> currentCount (fst (replay_frames fs (stats0, 0))) = last (0 # map length fs)
   \<and> counters (replay_frames (map frame_of_count [0, 2, 1, 3, 0]) (stats0, 0)) = (4, 4, 3, 0)"
proof -
  have c0: "counters (stats0, 0) = (0, 0, 0, 0)" by (simp add: counters_def stats0_def)
  have a: "counters (replay_frames fs (stats0, 0)) = delta_rule (map length fs) (0, 0, 0, 0)"
    by (simp only: counters_replay_frames c0)
  have b: "currentCount (fst (replay_frames fs (stats0, 0))) = last (0 # map length fs)"
    using currentCount_replay_frames [of fs "(stats0, 0)"] by (simp add: stats0_def)
  have "counters (replay_frames (map frame_of_count [0, 2, 1, 3, 0]) (stats0, 0))
        = delta_rule [0, 2, 1, 3, 0] (0, 0, 0, 0)"
    by (simp only: counters_replay_frames c0 length_frame_of_count)
  also have "\<dots> = (4, 4, 3, 0)" by simp
  finally show ?thesis using a b by blast
qed

section \<open>Person classifier: score bounds\<close>

lemma classify_one_bounds:
  assumes "classify_one frameArea p = Some d" and "score p > 0.40"
  shows "obj d = p"
    and "isChild d \<Longrightarrow> 0.40 \<le> score p \<and> score p < 0.60"
    and "\<not> isChild d \<Longrightarrow> 0.50 \<le> score p"
  using assms
  by (auto simp: classify_one_def Let_def split: prod.splits if_splits)

lemma classified_origin:
  assumes "d \<in> set (classified frameArea predictions)"
  shows "\<exists>p. classify_one frameArea p = Some d \<and> score p > 0.40 \<and> class_name p = ''person''
             \<and> isRealPerson frameArea (bbox p) \<and> p \<in> set predictions"
  using assms
  by (auto simp: classified_def rawPeople_def List.map_filter_def)

text \<open>
  Claim C4. In every frame, a detection the person classifier accepts as an adult has
  score at least 0.50, and one it accepts as a child has score at least 0.40 and below
  0.60.
\<close>

theorem classified_score_bounds:
  assumes "d \<in> set (classified frameArea predictions)"
  shows "(if isChild d then 0.40 \<le> score (obj d) \<and> score (obj d) < 0.60
          else 0.50 \<le> score (obj d))"
proof -
  obtain p where p: "classify_one frameArea p = Some d" "score p > 0.40"
    using classified_origin [OF assms] by blast
  show ?thesis
    using classify_one_bounds [OF p] by (cases "isChild d") simp_all
qed


theorem classified_score_bounds_witness:
  "classified 307200
     [\<lparr>class_name = ''person'', score = 0.9, bbox = (100, 50, 120, 300)\<rparr>,
      \<lparr>class_name = ''person'', score = 0.45, bbox = (300, 200, 60, 100)\<rparr>,
      \<lparr>class_name = ''person'', score = 0.45, bbox = (10, 10, 200, 300)\<rparr>,
      \<lparr>class_name = ''dog'', score = 0.95, bbox = (10, 10, 200, 300)\<rparr>]
   = [\<lparr>obj = \<lparr>class_name = ''person'', score = 0.9, bbox = (100, 50, 120, 300)\<rparr>, isChild = False\<rparr>,
      \<lparr>obj = \<lparr>class_name = ''person'', score = 0.45, bbox = (300, 200, 60, 100)\<rparr>, isChild = True\<rparr>]
   \<and> (0.40::real) \<le> 0.45 \<and> (0.45::real) < 0.60 \<and> (0.50::real) \<le> 0.9"
proof -
  let ?a = "\<lparr>class_name = ''person'', score = 0.9, bbox = (100, 50, 120, 300)\<rparr>"
  let ?c = "\<lparr>class_name = ''person'', score = 0.45, bbox = (300, 200, 60, 100)\<rparr>"
  let ?ps = "[?a, ?c,
      \<lparr>class_name = ''person'', score = 0.45, bbox = (10, 10, 200, 300)\<rparr>,
      \<lparr>class_name = ''dog'', score = 0.95, bbox = (10, 10, 200, 300)\<rparr>]"
  have run: "classified 307200 ?ps = [\<lparr>obj = ?a, isChild = False\<rparr>, \<lparr>obj = ?c, isChild = True\<rparr>]"
    by (simp add: classified_def rawPeople_def isRealPerson_def classify_one_def orOne_def
        List.map_filter_simps Let_def)
  have ma: "\<lparr>obj = ?a, isChild = False\<rparr> \<in> set (classified 307200 ?ps)"
    and mc: "\<lparr>obj = ?c, isChild = True\<rparr> \<in> set (classified 307200 ?ps)"
    by (simp_all only: run list.set insert_iff simp_thms)
  show ?thesis
    using run classified_score_bounds [OF ma] classified_score_bounds [OF mc] by simp
qed

section \<open>Alert dispatcher: adjacent repeats and the cap\<close>

lemma slice_last_snoc:
  "slice_last 50 (xs @ [x]) = drop (length xs - 49) (xs @ [x])"
  "length (slice_last 50 (xs @ [x])) = min 50 (length xs + 1)"
  "last (slice_last 50 (xs @ [x])) = x"
  by (auto simp: slice_last_def)

lemma alerts_handleAlert:
  "alerts (handleAlert tm now msg sev a) =
     (if alerts a \<noteq> [] \<and> message (last (alerts a)) = msg then alerts a
      else slice_last 50 (alerts a @ [\<lparr>time = tm, message = msg, severity = sev\<rparr>]))"
  by (simp add: handleAlert_def Let_def)

lemma alerts_submit_all_cap:
  "length (alerts a) \<le> 50 \<Longrightarrow> length (alerts (submit_all cs a)) \<le> 50"
proof (induction cs arbitrary: a)
  case Nil
  then show ?case by simp
next
  case (Cons c cs)
  have "length (alerts (handleAlert (fst c) (fst (snd c)) (fst (snd (snd c))) (snd (snd (snd c))) a)) \<le> 50"
    using Cons.prems by (simp add: alerts_handleAlert slice_last_snoc(2))
  then show ?case using Cons.IH by simp
qed

text \<open>
  Claim C5. \<open>handleAlert\<close> leaves the log as it is when the candidate's message equals
  the message of the last entry of the log, and otherwise appends the candidate and keeps
  the 50 most recent entries (the oldest dropped); the log never holds more than 50
  entries; and submitting the messages X, X, Y in order to an empty log gives the log
  [X, Y].
\<close>

theorem alert_log_append_unless_repeat:
  "(let log = alerts a; ent = \<lparr>time = tm, message = msg, severity = sev\<rparr>;
        log' = alerts (handleAlert tm now msg sev a)
    in if log \<noteq> [] \<and> message (last log) = msg then log' = log
       else log' = drop (length (log @ [ent]) - 50) (log @ [ent])
            \<and> length log' = min 50 (length log + 1) \<and> last log' = ent)
   \<and> length (alerts (submit_all cs app0)) \<le> 50
   \<and> map message (alerts (submit_all
        [(t1, n1, js ''X'', s1), (t2, n2, js ''X'', s2), (t3, n3, js ''Y'', s3)] app0))
       = [js ''X'', js ''Y'']"
proof -
  have one: "(let log = alerts a; ent = \<lparr>time = tm, message = msg, severity = sev\<rparr>;
        log' = alerts (handleAlert tm now msg sev a)
    in if log \<noteq> [] \<and> message (last log) = msg then log' = log
       else log' = drop (length (log @ [ent]) - 50) (log @ [ent])
            \<and> length log' = min 50 (length log + 1) \<and> last log' = ent)"
    using slice_last_snoc(2,3) [of "alerts a" "\<lparr>time = tm, message = msg, severity = sev\<rparr>"]
    by (simp add: alerts_handleAlert Let_def) (simp add: slice_last_def)
  have cap: "length (alerts (submit_all cs app0)) \<le> 50"
    by (rule alerts_submit_all_cap) (simp add: app0_def)
  have ex: "map message (alerts (submit_all
        [(t1, n1, js ''X'', s1), (t2, n2, js ''X'', s2), (t3, n3, js ''Y'', s3)] app0))
       = [js ''X'', js ''Y'']"
    by (simp add: alerts_handleAlert app0_def slice_last_def js_def)
  from one cap ex show ?thesis by blast
qed

section \<open>Identity tracker: helper facts\<close>

lemma hypot_less_iff: "0 < r \<Longrightarrow> hypot a b < r \<longleftrightarrow> a * a + b * b < r * r"
proof -
  assume r: "0 < r"
  have "sqrt (a * a + b * b) < sqrt (r * r) \<longleftrightarrow> a * a + b * b < r * r"
    by (rule real_sqrt_less_iff)
  moreover have "sqrt (r * r) = r" using r by simp
  ultimately show ?thesis by (simp add: hypot_def)
qed

lemma hypot_150: "hypot a b < 150 \<longleftrightarrow> a * a + b * b < 22500"
  using hypot_less_iff [of 150 a b] by simp

lemma hypot_less_hypot: "hypot a b < hypot c d \<longleftrightarrow> a * a + b * b < c * c + d * d"
  by (simp add: hypot_def)

text \<open>What one detection does to the history: only the assigned key changes.\<close>

lemma track_detection_other:
  "k \<noteq> assign_key now prev m b ci \<Longrightarrow>
   fst (track_detection now prev m b ci (hist, al)) k = hist k"
  by (simp add: track_detection_def Let_def)

lemma track_detection_assigned:
  "\<exists>e'. fst (track_detection now prev m b ci (hist, al)) (assign_key now prev m b ci) = Some e'
     \<and> firstSeen e' = (case hist (assign_key now prev m b ci) of None \<Rightarrow> now | Some e \<Rightarrow> firstSeen e)
     \<and> positions e' =
         (let pushed = (case hist (assign_key now prev m b ci) of None \<Rightarrow> [] | Some e \<Rightarrow> positions e)
                       @ [(fst (center b), snd (center b), fst (snd (snd b)), snd (snd (snd b)))]
          in if length pushed > 30 then tl pushed else pushed)"
  by (simp add: track_detection_def Let_def split: option.splits)

lemma track_detection_snd:
  "snd (track_detection now prev m b ci (hist, al)) =
     (if fall_check (positions (the (fst (track_detection now prev m b ci (hist, al))
                                       (assign_key now prev m b ci))))
      then al @ [(fall_message, Danger)] else al)"
  by (simp add: track_detection_def Let_def split: option.splits)

lemma sweep_Some: "sweep now hist k = Some e \<Longrightarrow> hist k = Some e"
  by (auto simp: sweep_def split: option.splits if_splits)

lemma sweep_keeps:
  "hist k = Some e \<Longrightarrow> 2 \<le> length (positions e) \<Longrightarrow> sweep now hist k = Some e"
  by (simp add: sweep_def)

lemma prevBbox_run_frames:
  "prevBbox (run_frames fs tr) = (if fs = [] then prevBbox tr else snd (last fs))"
  by (induction fs arbitrary: tr) (auto simp: track_frame_def)

section \<open>Identity tracker: the matched set\<close>

text \<open>
  Claim C2 says that within one frame no two detections are filed under the same
  previous-frame identity, each going to the nearest one not matched yet. The loop tests
  \<open>matched.has(pi)\<close> but nothing ever adds to \<open>matched\<close>, so the test never excludes a
  candidate. On a 640 by 480 frame, two people of score 0.9 with boxes P0 and P1 of 40 by
  100 px pass the shape filter and the classifier; after that frame, a frame with two such
  people that are both nearest to P0 files both under \<open>person_0\<close> and none under
  \<open>person_1\<close>, though P1 is within 150 px of the second.
\<close>

theorem two_detections_one_identity:
  "currentBboxes 307200
     [\<lparr>class_name = ''person'', score = 0.9, bbox = (0, 0, 40, 100)\<rparr>,
      \<lparr>class_name = ''person'', score = 0.9, bbox = (60, 0, 40, 100)\<rparr>]
     = [(0, 0, 40, 100), (60, 0, 40, 100)]
   \<and> currentBboxes 307200
     [\<lparr>class_name = ''person'', score = 0.9, bbox = (0, 0, 40, 100)\<rparr>,
      \<lparr>class_name = ''person'', score = 0.9, bbox = (20, 0, 40, 100)\<rparr>]
     = [(0, 0, 40, 100), (20, 0, 40, 100)]
   \<and> assign_key 2000 [(0, 0, 40, 100), (60, 0, 40, 100)] {} (0, 0, 40, 100) 0 = Person 0
   \<and> assign_key 2000 [(0, 0, 40, 100), (60, 0, 40, 100)] {} (20, 0, 40, 100) 1 = Person 0
   \<and> hypot (fst (center (20, 0, 40, 100)) - fst (center (60, 0, 40, 100)))
             (snd (center (20, 0, 40, 100)) - snd (center (60, 0, 40, 100))) < 150
   \<and> map_option positions
        (personHistory
           (detect_tracker 2000 307200
              [\<lparr>class_name = ''person'', score = 0.9, bbox = (0, 0, 40, 100)\<rparr>,
               \<lparr>class_name = ''person'', score = 0.9, bbox = (20, 0, 40, 100)\<rparr>]
              (detect_tracker 1000 307200
                 [\<lparr>class_name = ''person'', score = 0.9, bbox = (0, 0, 40, 100)\<rparr>,
                  \<lparr>class_name = ''person'', score = 0.9, bbox = (60, 0, 40, 100)\<rparr>]
                 tracker0))
           (Person 0))
       = Some [(20, 50, 40, 100), (40, 50, 40, 100)]
   \<and> personHistory
        (detect_tracker 2000 307200
           [\<lparr>class_name = ''person'', score = 0.9, bbox = (0, 0, 40, 100)\<rparr>,
            \<lparr>class_name = ''person'', score = 0.9, bbox = (20, 0, 40, 100)\<rparr>]
           (detect_tracker 1000 307200
              [\<lparr>class_name = ''person'', score = 0.9, bbox = (0, 0, 40, 100)\<rparr>,
               \<lparr>class_name = ''person'', score = 0.9, bbox = (60, 0, 40, 100)\<rparr>]
              tracker0))
        (Person 1) = None"
proof -
  have b1: "currentBboxes 307200
     [\<lparr>class_name = ''person'', score = 0.9, bbox = (0, 0, 40, 100)\<rparr>,
      \<lparr>class_name = ''person'', score = 0.9, bbox = (60, 0, 40, 100)\<rparr>]
     = [(0, 0, 40, 100), (60, 0, 40, 100)]"
    and b2: "currentBboxes 307200
     [\<lparr>class_name = ''person'', score = 0.9, bbox = (0, 0, 40, 100)\<rparr>,
      \<lparr>class_name = ''person'', score = 0.9, bbox = (20, 0, 40, 100)\<rparr>]
     = [(0, 0, 40, 100), (20, 0, 40, 100)]"
    by (simp_all add: currentBboxes_def people_def classified_def rawPeople_def isRealPerson_def
        classify_one_def orOne_def List.map_filter_simps Let_def)
  show ?thesis
    by (simp add: b1 b2 detect_tracker_def tracker0_def track_frame_def tracked_history_def
        track_detection_def assign_key_def center_def below_best_def hypot_150 hypot_less_hypot
        Let_def sweep_def fall_check_def)
qed

section \<open>Behaviour analyser: the fall test\<close>

lemma fall_check_iff:
  "fall_check ps \<longleftrightarrow>
     length ps > 5 \<and> heightRatio (ps ! (length ps - 5)) > 1.3 \<and> heightRatio (last ps) < 0.9"
proof (cases "length ps > 5")
  case False
  then show ?thesis by (simp add: fall_check_def)
next
  case True
  then have ne: "drop (length ps - 5) ps \<noteq> []" and ne': "ps \<noteq> []" by auto
  have h: "hd (map heightRatio (drop (length ps - 5) ps)) = heightRatio (ps ! (length ps - 5))"
    using True by (simp add: hd_map ne hd_drop_conv_nth)
  have l: "last (map heightRatio (drop (length ps - 5) ps)) = heightRatio (last ps)"
    using True by (simp add: last_map ne)
  show ?thesis using True h l by (simp add: fall_check_def slice_last_def Let_def)
qed

lemma last_tl_snoc: "29 < length xs \<Longrightarrow> last (tl (xs @ [p])) = p"
  by (cases xs) auto

text \<open>
  Claim C3, as amended. Processing a detection appends its position to the history of the
  identity it is filed under, and then emits exactly one danger fall alert when that
  history holds more than 5 positions and the height/width ratio is above 1.3 at the first
  of its last 5 positions and below 0.9 at its last position; otherwise (5 positions or
  fewer, or a last ratio of 0.9 or more) it emits none.
\<close>

theorem fall_alert_rule:
  "\<exists>e. fst (track_detection now prev m b ci (hist, al)) (assign_key now prev m b ci) = Some e
        \<and> last (positions e) = (fst (center b), snd (center b), fst (snd (snd b)), snd (snd (snd b)))
        \<and> snd (track_detection now prev m b ci (hist, al)) =
            (if length (positions e) > 5
                \<and> heightRatio (positions e ! (length (positions e) - 5)) > 1.3
                \<and> heightRatio (last (positions e)) < 0.9
             then al @ [(fall_message, Danger)] else al)"
proof -
  obtain e where e: "fst (track_detection now prev m b ci (hist, al)) (assign_key now prev m b ci) = Some e"
    "positions e =
         (let pushed = (case hist (assign_key now prev m b ci) of None \<Rightarrow> [] | Some e \<Rightarrow> positions e)
                       @ [(fst (center b), snd (center b), fst (snd (snd b)), snd (snd (snd b)))]
          in if length pushed > 30 then tl pushed else pushed)"
    using track_detection_assigned [of now prev m b ci hist al] by blast
  have la: "last (positions e) = (fst (center b), snd (center b), fst (snd (snd b)), snd (snd (snd b)))"
    by (simp add: e(2) Let_def last_tl_snoc)
  have "snd (track_detection now prev m b ci (hist, al)) =
          (if fall_check (positions e) then al @ [(fall_message, Danger)] else al)"
    using track_detection_snd [of now prev m b ci hist al] e(1) by simp
  then show ?thesis using e(1) la by (auto simp: fall_check_iff)
qed

lemma six_frames:
  "personHistory (run_frames [(1000, [(0, 0, 100, 150)]), (2000, [(0, 0, 100, 150)]),
       (3000, [(0, 0, 100, 140)]), (4000, [(0, 0, 100, 130)]), (5000, [(0, 0, 100, 120)]),
       (6000, [(0, 0, 100, 100)])] tracker0)
     (Person 0)
   = Some \<lparr>positions = [(50, 75, 100, 150), (50, 70, 100, 140), (50, 65, 100, 130),
                         (50, 60, 100, 120), (50, 50, 100, 100)],
           firstSeen = 2000\<rparr>
   \<and> prevBbox (run_frames [(1000, [(0, 0, 100, 150)]), (2000, [(0, 0, 100, 150)]),
       (3000, [(0, 0, 100, 140)]), (4000, [(0, 0, 100, 130)]), (5000, [(0, 0, 100, 120)]),
       (6000, [(0, 0, 100, 100)])] tracker0)
     = [(0, 0, 100, 100)]"
  by (simp add: tracker0_def track_frame_def tracked_history_def track_detection_def
        assign_key_def center_def below_best_def hypot_150 Let_def sweep_def fall_check_def)

theorem fall_alert_rule_witness:
  "frame_alerts 7000 [(0, 0, 100, 80)]
     (run_frames [(1000, [(0, 0, 100, 150)]), (2000, [(0, 0, 100, 150)]),
        (3000, [(0, 0, 100, 140)]), (4000, [(0, 0, 100, 130)]), (5000, [(0, 0, 100, 120)]),
        (6000, [(0, 0, 100, 100)])] tracker0)
   = [(fall_message, Danger)]"
proof -
  define tr where "tr = run_frames [(1000, [(0, 0, 100, 150)]), (2000, [(0, 0, 100, 150)]),
        (3000, [(0, 0, 100, 140)]), (4000, [(0, 0, 100, 130)]), (5000, [(0, 0, 100, 120)]),
        (6000, [(0, 0, 100, 100)])] tracker0"
  have h: "personHistory tr (Person 0)
           = Some \<lparr>positions = [(50, 75, 100, 150), (50, 70, 100, 140), (50, 65, 100, 130),
                         (50, 60, 100, 120), (50, 50, 100, 100)], firstSeen = 2000\<rparr>"
    and p: "prevBbox tr = [(0, 0, 100, 100)]"
    using six_frames unfolding tr_def by blast+
  have k: "assign_key 7000 (prevBbox tr) {} (0, 0, 100, 80) 0 = Person 0"
    by (simp add: p assign_key_def center_def below_best_def hypot_150)
  have f: "fst (track_detection 7000 (prevBbox tr) {} (0, 0, 100, 80) 0 (personHistory tr, []))
             (Person 0)
           = Some \<lparr>positions = [(50, 75, 100, 150), (50, 70, 100, 140), (50, 65, 100, 130),
                         (50, 60, 100, 120), (50, 50, 100, 100), (50, 40, 100, 80)],
                   firstSeen = 2000\<rparr>"
    using k h by (simp add: track_detection_def center_def Let_def)
  obtain e where e: "fst (track_detection 7000 (prevBbox tr) {} (0, 0, 100, 80) 0 (personHistory tr, []))
             (assign_key 7000 (prevBbox tr) {} (0, 0, 100, 80) 0) = Some e"
    and s: "snd (track_detection 7000 (prevBbox tr) {} (0, 0, 100, 80) 0 (personHistory tr, [])) =
            (if length (positions e) > 5
                \<and> heightRatio (positions e ! (length (positions e) - 5)) > 1.3
                \<and> heightRatio (last (positions e)) < 0.9
             then [] @ [(fall_message, Danger)] else [])"
    using fall_alert_rule [of 7000 "prevBbox tr" "{}" "(0, 0, 100, 80)" 0 "personHistory tr" "[]"]
    by blast
  have pe: "positions e = [(50, 75, 100, 150), (50, 70, 100, 140), (50, 65, 100, 130),
                         (50, 60, 100, 120), (50, 50, 100, 100), (50, 40, 100, 80)]"
    using e f k by auto
  have "snd (track_detection 7000 (prevBbox tr) {} (0, 0, 100, 80) 0 (personHistory tr, []))
        = [(fall_message, Danger)]"
    by (simp add: s pe heightRatio_def orOne_def)
  then have "frame_alerts 7000 [(0, 0, 100, 80)] tr = [(fall_message, Danger)]"
    by (simp add: frame_alerts_def)
  then show ?thesis unfolding tr_def .
qed

text \<open>
  Claim C3 as stated fails: after six frames the identity \<open>person_0\<close> holds exactly 5
  positions, with ratio 1.4 at the first and 0.8 at the last, and the frame emits no alert.
\<close>

lemma five_frames:
  "personHistory (run_frames [(1000, [(0, 0, 100, 140)]), (2000, [(0, 0, 100, 140)]),
       (3000, [(0, 0, 100, 130)]), (4000, [(0, 0, 100, 120)]), (5000, [(0, 0, 100, 100)])] tracker0)
     (Person 0)
   = Some \<lparr>positions = [(50, 70, 100, 140), (50, 65, 100, 130), (50, 60, 100, 120), (50, 50, 100, 100)],
           firstSeen = 2000\<rparr>
   \<and> prevBbox (run_frames [(1000, [(0, 0, 100, 140)]), (2000, [(0, 0, 100, 140)]),
       (3000, [(0, 0, 100, 130)]), (4000, [(0, 0, 100, 120)]), (5000, [(0, 0, 100, 100)])] tracker0)
     = [(0, 0, 100, 100)]"
  by (simp add: tracker0_def track_frame_def tracked_history_def track_detection_def
        assign_key_def center_def below_best_def hypot_150 Let_def sweep_def fall_check_def)

theorem five_positions_no_fall_alert:
  "map_option (\<lambda>e. map heightRatio (positions e))
     (tracked_history 6000 [(0, 0, 100, 80)]
        (run_frames [(1000, [(0, 0, 100, 140)]), (2000, [(0, 0, 100, 140)]),
           (3000, [(0, 0, 100, 130)]), (4000, [(0, 0, 100, 120)]), (5000, [(0, 0, 100, 100)])] tracker0)
        (Person 0))
     = Some [1.4, 1.3, 1.2, 1, 0.8]
   \<and> frame_alerts 6000 [(0, 0, 100, 80)]
        (run_frames [(1000, [(0, 0, 100, 140)]), (2000, [(0, 0, 100, 140)]),
           (3000, [(0, 0, 100, 130)]), (4000, [(0, 0, 100, 120)]), (5000, [(0, 0, 100, 100)])] tracker0)
     = []"
  using five_frames
  by (simp add: tracked_history_def frame_alerts_def track_detection_def
        assign_key_def center_def below_best_def hypot_150 Let_def fall_check_def heightRatio_def orOne_def)

section \<open>Identity tracker: the bound on stored positions\<close>

text \<open>The bound of 30 positions.\<close>

lemma track_detection_bound:
  assumes "\<And>k e. hist k = Some e \<Longrightarrow> length (positions e) \<le> 30"
    and "fst (track_detection now prev m b ci (hist, al)) k = Some e"
  shows "length (positions e) \<le> 30"
proof (cases "k = assign_key now prev m b ci")
  case False
  then show ?thesis using assms track_detection_other [of k now prev m b ci hist al] by simp
next
  case True
  obtain e' where e': "fst (track_detection now prev m b ci (hist, al)) k = Some e'"
    "positions e' =
         (let pushed = (case hist k of None \<Rightarrow> [] | Some e \<Rightarrow> positions e)
                       @ [(fst (center b), snd (center b), fst (snd (snd b)), snd (snd (snd b)))]
          in if length pushed > 30 then tl pushed else pushed)"
    using track_detection_assigned [of now prev m b ci hist al] True by auto
  have "length (case hist k of None \<Rightarrow> [] | Some e \<Rightarrow> positions e) \<le> 30"
    using assms(1) by (cases "hist k") auto
  then have "length (positions e') \<le> 30" by (simp add: e'(2) Let_def)
  then show ?thesis using e'(1) assms(2) by simp
qed

lemma track_all_bound:
  assumes "\<And>k e. hist k = Some e \<Longrightarrow> length (positions e) \<le> 30"
    and "fst (track_all now prev m bs ci (hist, al)) k = Some e"
  shows "length (positions e) \<le> 30"
  using assms
proof (induction bs arbitrary: ci hist al)
  case Nil
  then show ?case by simp
next
  case (Cons b bs)
  obtain h1 a1 where st: "track_detection now prev m b ci (hist, al) = (h1, a1)"
    by (cases "track_detection now prev m b ci (hist, al)") auto
  have b1: "\<And>k e. h1 k = Some e \<Longrightarrow> length (positions e) \<le> 30"
    using track_detection_bound [of hist now prev m b ci al] Cons.prems(1) st by simp
  show ?case using Cons.IH [of h1 "Suc ci" a1] b1 Cons.prems(2) st by simp
qed

lemma track_frame_bound:
  assumes "\<And>k e. personHistory tr k = Some e \<Longrightarrow> length (positions e) \<le> 30"
    and "personHistory (track_frame now cur tr) k = Some e"
  shows "length (positions e) \<le> 30"
proof -
  have "sweep now (tracked_history now cur tr) k = Some e"
    using assms(2) by (simp add: track_frame_def)
  then have "tracked_history now cur tr k = Some e"
    by (rule sweep_Some)
  then show ?thesis
    using track_all_bound [of "personHistory tr" now "prevBbox tr" "{}" cur 0 "[]" k e] assms(1)
    by (simp add: tracked_history_def)
qed

lemma run_frames_bound:
  assumes "\<And>k e. personHistory tr k = Some e \<Longrightarrow> length (positions e) \<le> 30"
    and "personHistory (run_frames fs tr) k = Some e"
  shows "length (positions e) \<le> 30"
  using assms
proof (induction fs arbitrary: tr)
  case Nil
  then show ?case by simp
next
  case (Cons f fs)
  have "\<And>k e. personHistory (track_frame (fst f) (snd f) tr) k = Some e \<Longrightarrow> length (positions e) \<le> 30"
    using track_frame_bound Cons.prems(1) by blast
  then show ?case using Cons.IH [of "track_frame (fst f) (snd f) tr"] Cons.prems(2) by simp
qed

text \<open>
  Claim C8. After any number of frames from the empty tracker, every identity's stored
  position history has at most 30 entries; and appending a position to a history of 30
  drops its oldest entry and keeps the rest in order, the new position last.
\<close>

theorem positions_ring_buffer:
  "(personHistory (run_frames fs tracker0) k = Some e \<longrightarrow> length (positions e) \<le> 30)
   \<and> (hist (assign_key now prev m b ci) = Some e0 \<and> length (positions e0) = 30 \<longrightarrow>
        fst (track_detection now prev m b ci (hist, al)) (assign_key now prev m b ci)
        = Some (e0\<lparr>positions := tl (positions e0)
                     @ [(fst (center b), snd (center b), fst (snd (snd b)), snd (snd (snd b)))]\<rparr>))"
proof -
  have a: "personHistory (run_frames fs tracker0) k = Some e \<longrightarrow> length (positions e) \<le> 30"
    using run_frames_bound [of tracker0 fs k e] by (simp add: tracker0_def)
  have b: "hist (assign_key now prev m b ci) = Some e0 \<and> length (positions e0) = 30 \<longrightarrow>
        fst (track_detection now prev m b ci (hist, al)) (assign_key now prev m b ci)
        = Some (e0\<lparr>positions := tl (positions e0)
                     @ [(fst (center b), snd (center b), fst (snd (snd b)), snd (snd (snd b)))]\<rparr>)"
  proof
    assume h: "hist (assign_key now prev m b ci) = Some e0 \<and> length (positions e0) = 30"
    then have ne: "positions e0 \<noteq> []" by auto
    show "fst (track_detection now prev m b ci (hist, al)) (assign_key now prev m b ci)
        = Some (e0\<lparr>positions := tl (positions e0)
                     @ [(fst (center b), snd (center b), fst (snd (snd b)), snd (snd (snd b)))]\<rparr>)"
      using h ne by (simp add: track_detection_def Let_def)
  qed
  from a b show ?thesis by blast
qed

theorem positions_ring_buffer_witness:
  "personHistory (run_frames [(1000, [(0, 0, 10, 10)]), (2000, [(3, 4, 10, 10)])] tracker0) (Person 0)
     = Some \<lparr>positions = [(8, 9, 10, 10)], firstSeen = 2000\<rparr>
   \<and> length [(8, 9, 10, 10) :: bbox] \<le> 30
   \<and> length (replicate 30 ((5, 5, 10, 10) :: bbox)) = 30
   \<and> fst (track_detection 1000 [(0, 0, 10, 10)] {} (3, 4, 10, 10) 0
          ([Person 0 \<mapsto> \<lparr>positions = replicate 30 (5, 5, 10, 10), firstSeen = 0\<rparr>], []))
        (Person 0)
       = Some \<lparr>positions = tl (replicate 30 (5, 5, 10, 10)) @ [(8, 9, 10, 10)], firstSeen = 0\<rparr>"
proof -
  let ?fs = "[(1000, [(0, 0, 10, 10)]), (2000, [(3, 4, 10, 10)])] :: (int \<times> bbox list) list"
  let ?new = "\<lparr>positions = [(8, 9, 10, 10)], firstSeen = 2000\<rparr>"
  let ?old = "\<lparr>positions = replicate 30 ((5, 5, 10, 10) :: bbox), firstSeen = 0\<rparr>"
  let ?hist = "[Person 0 \<mapsto> ?old]"
  have k: "assign_key 1000 [(0, 0, 10, 10)] {} (3, 4, 10, 10) 0 = Person 0"
    by (simp add: assign_key_def center_def below_best_def hypot_150)
  have run: "personHistory (run_frames ?fs tracker0) (Person 0) = Some ?new"
    by (simp add: tracker0_def track_frame_def tracked_history_def track_detection_def
        assign_key_def center_def below_best_def hypot_150 Let_def sweep_def fall_check_def)
  have h: "?hist (assign_key 1000 [(0, 0, 10, 10)] {} (3, 4, 10, 10) 0) = Some ?old
           \<and> length (positions ?old) = 30"
    by (simp add: k)
  show ?thesis
    using run h
      positions_ring_buffer [where fs = ?fs and k = "Person 0" and e = ?new and hist = ?hist
        and now = 1000 and prev = "[(0, 0, 10, 10)]" and m = "{}" and b = "(3, 4, 10, 10)"
        and ci = 0 and ?e0.0 = ?old and al = "[]"]
    by (simp add: k center_def)
qed

section \<open>Identity tracker: the sweep\<close>

text \<open>
  An entry with fewer than two positions was appended to once, when it was created:
  its \<open>firstSeen\<close> is the time of its last update.
\<close>

lemma track_detection_agree:
  assumes inv: "\<And>k e. hist k = Some e \<Longrightarrow>
                  1 \<le> length (positions e) \<and> (length (positions e) < 2 \<longrightarrow> upd k = Some (firstSeen e))"
    and res: "fst (track_detection now prev m b ci (hist, al)) k = Some e"
  shows "1 \<le> length (positions e)
         \<and> (length (positions e) < 2 \<longrightarrow>
              (upd(assign_key now prev m b ci \<mapsto> now)) k = Some (firstSeen e))"
proof (cases "k = assign_key now prev m b ci")
  case False
  then have "hist k = Some e"
    using res track_detection_other [of k now prev m b ci hist al] by simp
  then show ?thesis using inv False by simp
next
  case True
  obtain e' where e': "fst (track_detection now prev m b ci (hist, al)) k = Some e'"
    "firstSeen e' = (case hist k of None \<Rightarrow> now | Some e \<Rightarrow> firstSeen e)"
    "positions e' =
         (let pushed = (case hist k of None \<Rightarrow> [] | Some e \<Rightarrow> positions e)
                       @ [(fst (center b), snd (center b), fst (snd (snd b)), snd (snd (snd b)))]
          in if length pushed > 30 then tl pushed else pushed)"
    using track_detection_assigned [of now prev m b ci hist al] True by auto
  have ee: "e' = e" using e'(1) res by simp
  show ?thesis
  proof (cases "hist k")
    case None
    then show ?thesis using e'(2,3) ee True by (simp add: Let_def)
  next
    case (Some e0)
    then have "1 \<le> length (positions e0)" using inv by blast
    then have "2 \<le> length (positions e')" using e'(3) Some by (simp add: Let_def)
    then show ?thesis using ee by simp
  qed
qed

lemma track_all_agree:
  assumes "\<And>k e. hist k = Some e \<Longrightarrow>
                  1 \<le> length (positions e) \<and> (length (positions e) < 2 \<longrightarrow> upd k = Some (firstSeen e))"
    and "fst (track_all now prev {} bs ci (hist, al)) k = Some e"
  shows "1 \<le> length (positions e)
         \<and> (length (positions e) < 2 \<longrightarrow> note_updates now prev bs ci upd k = Some (firstSeen e))"
  using assms
proof (induction bs arbitrary: ci hist al upd)
  case Nil
  then show ?case by simp
next
  case (Cons b bs)
  obtain h1 a1 where st: "track_detection now prev {} b ci (hist, al) = (h1, a1)"
    by (cases "track_detection now prev {} b ci (hist, al)") auto
  have inv1: "\<And>k e. h1 k = Some e \<Longrightarrow>
                  1 \<le> length (positions e)
                  \<and> (length (positions e) < 2 \<longrightarrow>
                       (upd(assign_key now prev {} b ci \<mapsto> now)) k = Some (firstSeen e))"
    using track_detection_agree [where hist = hist and upd = upd and now = now and prev = prev
        and m = "{}" and b = b and ci = ci and al = al] Cons.prems(1) st
    by (metis fst_conv)
  have step: "fst (track_all now prev {} bs (Suc ci) (h1, a1)) k = Some e"
    using Cons.prems(2) st by simp
  have "1 \<le> length (positions e)
         \<and> (length (positions e) < 2 \<longrightarrow>
              note_updates now prev bs (Suc ci) (upd(assign_key now prev {} b ci \<mapsto> now)) k
              = Some (firstSeen e))"
    by (rule Cons.IH [where hist = h1 and upd = "upd(assign_key now prev {} b ci \<mapsto> now)"
          and ci = "Suc ci" and al = a1, OF inv1 step])
  then show ?case by (simp del: fun_upd_apply)
qed

lemma run_frames_agree:
  assumes "\<And>k e. personHistory tr k = Some e \<Longrightarrow>
                  1 \<le> length (positions e) \<and> (length (positions e) < 2 \<longrightarrow> upd k = Some (firstSeen e))"
    and "personHistory (run_frames fs tr) k = Some e"
  shows "1 \<le> length (positions e)
         \<and> (length (positions e) < 2 \<longrightarrow> last_updated fs (prevBbox tr) upd k = Some (firstSeen e))"
  using assms
proof (induction fs arbitrary: tr upd)
  case Nil
  then show ?case by simp
next
  case (Cons f fs)
  let ?tr1 = "track_frame (fst f) (snd f) tr"
  let ?upd1 = "note_updates (fst f) (prevBbox tr) (snd f) 0 upd"
  have inv1: "\<And>k e. personHistory ?tr1 k = Some e \<Longrightarrow>
                  1 \<le> length (positions e) \<and> (length (positions e) < 2 \<longrightarrow> ?upd1 k = Some (firstSeen e))"
  proof -
    fix k e
    assume "personHistory ?tr1 k = Some e"
    then have "sweep (fst f) (tracked_history (fst f) (snd f) tr) k = Some e"
      by (simp add: track_frame_def)
    then have "tracked_history (fst f) (snd f) tr k = Some e" by (rule sweep_Some)
    then have "fst (track_all (fst f) (prevBbox tr) {} (snd f) 0 (personHistory tr, [])) k = Some e"
      by (simp add: tracked_history_def)
    then show "1 \<le> length (positions e) \<and> (length (positions e) < 2 \<longrightarrow> ?upd1 k = Some (firstSeen e))"
      using track_all_agree [where hist = "personHistory tr" and upd = upd and now = "fst f"
          and prev = "prevBbox tr" and bs = "snd f" and ci = 0 and al = "[]" and k = k and e = e]
        Cons.prems(1) by blast
  qed
  have p1: "prevBbox ?tr1 = snd f" by (simp add: track_frame_def)
  show ?case
    using Cons.IH [where tr = ?tr1 and upd = ?upd1] inv1 Cons.prems(2) p1 by simp
qed

lemma last_updated_snoc:
  "last_updated (fs @ [f]) prev upd =
     note_updates (fst f) (if fs = [] then prev else snd (last fs)) (snd f) 0 (last_updated fs prev upd)"
  by (induction fs arbitrary: prev upd) auto

text \<open>
  Claim C9. In any frame of a run from the empty tracker, an identity present after the
  frame's tracker update is removed by the sweep exactly when its last update (the latest
  frame that appended a position under its key) is more than 60000 ms before the frame's
  time and it has fewer than 2 recorded positions; every other identity is kept unchanged.
\<close>

theorem sweep_evicts_stale_singletons:
  assumes "tracked_history now cur (run_frames fs tracker0) k = Some e"
  shows "personHistory (track_frame now cur (run_frames fs tracker0)) k =
           (if (case last_updated (fs @ [(now, cur)]) [] Map.empty k of
                  None \<Rightarrow> False | Some t \<Rightarrow> now - t > 60000)
               \<and> length (positions e) < 2
            then None else Some e)"
proof -
  let ?tr = "run_frames fs tracker0"
  let ?upd0 = "last_updated fs [] Map.empty"
  have inv0: "\<And>k e. personHistory ?tr k = Some e \<Longrightarrow>
                  1 \<le> length (positions e) \<and> (length (positions e) < 2 \<longrightarrow> ?upd0 k = Some (firstSeen e))"
    using run_frames_agree [where tr = tracker0 and upd = Map.empty and fs = fs]
    by (simp add: tracker0_def)
  have prev: "prevBbox ?tr = (if fs = [] then [] else snd (last fs))"
    by (simp add: prevBbox_run_frames tracker0_def)
  have upd: "last_updated (fs @ [(now, cur)]) [] Map.empty = note_updates now (prevBbox ?tr) cur 0 ?upd0"
    by (simp add: last_updated_snoc prev)
  have "fst (track_all now (prevBbox ?tr) {} cur 0 (personHistory ?tr, [])) k = Some e"
    using assms by (simp add: tracked_history_def)
  then have ag: "1 \<le> length (positions e)
         \<and> (length (positions e) < 2 \<longrightarrow>
              note_updates now (prevBbox ?tr) cur 0 ?upd0 k = Some (firstSeen e))"
    using track_all_agree [where hist = "personHistory ?tr" and upd = ?upd0 and now = now
          and prev = "prevBbox ?tr" and bs = cur and ci = 0 and al = "[]" and k = k and e = e]
      inv0 by blast
  have sw: "personHistory (track_frame now cur ?tr) k =
              (if now - firstSeen e > 60000 \<and> length (positions e) < 2 then None else Some e)"
    using assms by (simp add: track_frame_def sweep_def)
  show ?thesis
  proof (cases "length (positions e) < 2")
    case True
    then have "last_updated (fs @ [(now, cur)]) [] Map.empty k = Some (firstSeen e)"
      using ag upd by simp
    then show ?thesis using sw True by simp
  next
    case False
    then show ?thesis using sw by simp
  qed
qed

theorem sweep_evicts_stale_singletons_witness:
  "tracked_history 70000 [] (run_frames [(1000, [(0, 0, 10, 10)])] tracker0) (PersonNew 1000 0)
     = Some \<lparr>positions = [(5, 5, 10, 10)], firstSeen = 1000\<rparr>
   \<and> last_updated ([(1000, [(0, 0, 10, 10)])] @ [(70000, [])]) [] Map.empty (PersonNew 1000 0)
     = Some 1000
   \<and> personHistory (track_frame 70000 [] (run_frames [(1000, [(0, 0, 10, 10)])] tracker0))
        (PersonNew 1000 0) = None
   \<and> personHistory (track_frame 50000 [] (run_frames [(1000, [(0, 0, 10, 10)])] tracker0))
        (PersonNew 1000 0) = Some \<lparr>positions = [(5, 5, 10, 10)], firstSeen = 1000\<rparr>"
proof -
  let ?fs = "[(1000, [(0, 0, 10, 10)])] :: (int \<times> bbox list) list"
  let ?new = "\<lparr>positions = [(5, 5, 10, 10)], firstSeen = 1000\<rparr>"
  have mid: "tracked_history now [] (run_frames ?fs tracker0) (PersonNew 1000 0) = Some ?new" for now
    by (simp add: tracker0_def track_frame_def tracked_history_def track_detection_def
        assign_key_def center_def Let_def sweep_def fall_check_def)
  have upd: "last_updated (?fs @ [(now, [])]) [] Map.empty (PersonNew 1000 0) = Some 1000" for now
    by (simp add: assign_key_def)
  show ?thesis
    using mid [of 70000] upd [of 70000]
      sweep_evicts_stale_singletons [OF mid [of 70000]]
      sweep_evicts_stale_singletons [OF mid [of 50000]]
    by (simp add: upd)
qed

section \<open>Identity tracker: established identities stay\<close>

text \<open>An identity with two positions or more survives.\<close>

lemma track_detection_keeps:
  assumes "hist k = Some e" and "2 \<le> length (positions e)"
  shows "\<exists>e'. fst (track_detection now prev m b ci (hist, al)) k = Some e'
              \<and> 2 \<le> length (positions e')"
proof (cases "k = assign_key now prev m b ci")
  case False
  then show ?thesis using assms track_detection_other [of k now prev m b ci hist al] by simp
next
  case True
  obtain e' where e': "fst (track_detection now prev m b ci (hist, al)) k = Some e'"
    "positions e' =
         (let pushed = (case hist k of None \<Rightarrow> [] | Some e \<Rightarrow> positions e)
                       @ [(fst (center b), snd (center b), fst (snd (snd b)), snd (snd (snd b)))]
          in if length pushed > 30 then tl pushed else pushed)"
    using track_detection_assigned [of now prev m b ci hist al] True by auto
  have "2 \<le> length (positions e')"
    using assms by (simp add: e'(2) Let_def)
  then show ?thesis using e'(1) by blast
qed

lemma track_all_keeps:
  assumes "hist k = Some e" and "2 \<le> length (positions e)"
  shows "\<exists>e'. fst (track_all now prev m bs ci (hist, al)) k = Some e'
              \<and> 2 \<le> length (positions e')"
  using assms
proof (induction bs arbitrary: ci hist al e)
  case Nil
  then show ?case by simp
next
  case (Cons b bs)
  obtain h1 a1 where st: "track_detection now prev m b ci (hist, al) = (h1, a1)"
    by (cases "track_detection now prev m b ci (hist, al)") auto
  obtain e1 where e1: "h1 k = Some e1" "2 \<le> length (positions e1)"
    using track_detection_keeps [where hist = hist and k = k and e = e and now = now and prev = prev
        and m = m and b = b and ci = ci and al = al] Cons.prems st by auto
  show ?case using Cons.IH [where hist = h1 and e = e1 and ci = "Suc ci" and al = a1] e1 st by simp
qed

lemma track_frame_keeps:
  assumes "personHistory tr k = Some e" and "2 \<le> length (positions e)"
  shows "\<exists>e'. personHistory (track_frame now cur tr) k = Some e' \<and> 2 \<le> length (positions e')"
proof -
  obtain e1 where e1: "tracked_history now cur tr k = Some e1" "2 \<le> length (positions e1)"
    using track_all_keeps [where hist = "personHistory tr" and k = k and e = e and now = now
        and prev = "prevBbox tr" and m = "{}" and bs = cur and ci = 0 and al = "[]"] assms
    by (auto simp: tracked_history_def)
  have "personHistory (track_frame now cur tr) k = Some e1"
    using sweep_keeps [where hist = "tracked_history now cur tr" and k = k and e = e1 and now = now] e1
    by (simp add: track_frame_def)
  then show ?thesis using e1(2) by blast
qed

text \<open>
  Claim C10. An identity whose history holds at least 2 positions is never evicted: after
  any further frames, whatever their times and detections, it is still in the identity
  set, with at least 2 positions.
\<close>

theorem established_identity_never_evicted:
  assumes "personHistory tr k = Some e" and "2 \<le> length (positions e)"
  shows "\<exists>e'. personHistory (run_frames fs tr) k = Some e' \<and> 2 \<le> length (positions e')"
  using assms
proof (induction fs arbitrary: tr e)
  case Nil
  then show ?case by simp
next
  case (Cons f fs)
  obtain e1 where e1: "personHistory (track_frame (fst f) (snd f) tr) k = Some e1"
    "2 \<le> length (positions e1)"
    using track_frame_keeps [where tr = tr and k = k and e = e and now = "fst f" and cur = "snd f"]
      Cons.prems by blast
  show ?case using Cons.IH [where tr = "track_frame (fst f) (snd f) tr" and e = e1] e1 by simp
qed

theorem established_identity_never_evicted_witness:
  "personHistory (run_frames [(1000, [(0, 0, 10, 10)]), (2000, [(3, 4, 10, 10)]),
                              (3000, [(0, 0, 10, 10)])] tracker0) (Person 0)
     = Some \<lparr>positions = [(8, 9, 10, 10), (5, 5, 10, 10)], firstSeen = 2000\<rparr>
   \<and> 2 \<le> length [(8, 9, 10, 10), (5, 5, 10, 10) :: bbox]
   \<and> (\<exists>e'. personHistory (run_frames [(90000000, []), (190000000, [(500, 500, 10, 10)])]
               (run_frames [(1000, [(0, 0, 10, 10)]), (2000, [(3, 4, 10, 10)]),
                            (3000, [(0, 0, 10, 10)])] tracker0)) (Person 0) = Some e'
           \<and> 2 \<le> length (positions e'))"
proof -
  let ?fs = "[(1000, [(0, 0, 10, 10)]), (2000, [(3, 4, 10, 10)]),
              (3000, [(0, 0, 10, 10)])] :: (int \<times> bbox list) list"
  let ?new = "\<lparr>positions = [(8, 9, 10, 10), (5, 5, 10, 10)], firstSeen = 2000\<rparr>"
  have run: "personHistory (run_frames ?fs tracker0) (Person 0) = Some ?new"
    by (simp add: tracker0_def track_frame_def tracked_history_def track_detection_def
        assign_key_def center_def below_best_def hypot_150 Let_def sweep_def fall_check_def)
  have len: "2 \<le> length (positions ?new)" by simp
  show ?thesis
    using run len
      established_identity_never_evicted [where tr = "run_frames ?fs tracker0" and k = "Person 0"
        and e = ?new and fs = "[(90000000, []), (190000000, [(500, 500, 10, 10)])]"]
    by simp
qed

section \<open>Voice queue: helper facts\<close>

lemma key_fire: "dedup_key (js ''Fire!'') = js ''fire''"
  by (simp add: js_def dedup_key_def letter_or_space_def toLowerCase_def)

lemma clean_fire: "clean (js ''Fire!'') = js ''Fire!''"
  by (simp add: js_def clean_def trim_def white_space_def)

lemma clean_emoji: "clean ([32, 128680] @ js ''Fire!  '') = js ''Fire!''"
  by (simp add: js_def clean_def trim_def white_space_def)

lemma speakNext_cases:
  "speakNext v = v
   \<or> (synth v \<and> \<not> isSpeakingRef v \<and> queue v \<noteq> []
      \<and> speakNext v = v\<lparr>queue := tl (queue v), isSpeakingRef := True, isSpeaking := True,
                          engine := engine v @ [hd (queue v)], spoken := spoken v @ [hd (queue v)]\<rparr>)"
  by (cases "queue v") (auto simp: speakNext_def)

lemma speakNext_fifo: "spoken (speakNext v) @ queue (speakNext v) = spoken v @ queue v"
  using speakNext_cases [of v] by (cases "queue v") auto

lemma speakNext_keeps:
  "lastSpoken (speakNext v) = lastSpoken v" "voiceEnabled (speakNext v) = voiceEnabled v"
  "synth (speakNext v) = synth v"
  using speakNext_cases [of v] by auto

lemma speakNext_engine:
  assumes "isSpeakingRef v = (engine v \<noteq> [])" and "length (engine v) \<le> 1"
  shows "isSpeakingRef (speakNext v) = (engine (speakNext v) \<noteq> [])
         \<and> length (engine (speakNext v)) \<le> 1"
  using speakNext_cases [of v] assms by auto

lemma speak_discarded: "\<not> speak_accepts m c t v \<Longrightarrow> speak m c t v = v"
  by (simp add: speak_def)

lemma speak_accepted:
  assumes "speak_accepts m c t v"
  shows "spoken (speak m c t v) @ queue (speak m c t v) = spoken v @ queue v @ [clean m]"
    and "lastSpoken (speak m c t v) = (lastSpoken v)(dedup_key m \<mapsto> t)"
  using assms by (simp_all add: speak_def speakNext_fifo speakNext_keeps)

lemma speak_flags:
  "voiceEnabled (speak m c t v) = voiceEnabled v" "synth (speak m c t v) = synth v"
  by (simp_all add: speak_def speakNext_keeps)

lemma speak_accepts_iff:
  "speak_accepts m c t v \<longleftrightarrow>
     voiceEnabled v \<and> synth v
     \<and> (case lastSpoken v (dedup_key m) of None \<Rightarrow> 0 | Some t0 \<Rightarrow> t0) + c \<le> t"
  by (auto simp: speak_accepts_def Let_def)

text \<open>One event and the queue, the engine, the flags and the recorded times.\<close>

lemma step_fifo:
  "spoken (step ev v) @ queue (step ev v) = spoken v @ queue v @ enqueued [ev] v"
proof (cases ev)
  case (Speak m c t)
  then show ?thesis
    by (cases "speak_accepts m c t v") (simp_all add: speak_accepted speak_discarded)
next
  case Ended
  then show ?thesis by (cases "engine v") (simp_all add: onend_def speakNext_fifo)
next
  case Errored
  then show ?thesis by (cases "engine v") (simp_all add: onerror_def speakNext_fifo)
qed

lemma enqueued_Cons: "enqueued (ev # evs) v = enqueued [ev] v @ enqueued evs (step ev v)"
  by (cases ev) simp_all

lemma run_fifo:
  "spoken (run evs v) @ queue (run evs v) = spoken v @ queue v @ enqueued evs v"
proof (induction evs arbitrary: v)
  case Nil
  show ?case by simp
next
  case (Cons ev evs)
  have "spoken (run (ev # evs) v) @ queue (run (ev # evs) v)
        = spoken (step ev v) @ queue (step ev v) @ enqueued evs (step ev v)"
    using Cons.IH [of "step ev v"] by simp
  also have "\<dots> = (spoken v @ queue v @ enqueued [ev] v) @ enqueued evs (step ev v)"
    using step_fifo [of ev v] by (metis append.assoc)
  also have "\<dots> = spoken v @ queue v @ enqueued (ev # evs) v"
    by (simp add: enqueued_Cons [of ev evs v])
  finally show ?case .
qed

lemma step_engine:
  assumes "isSpeakingRef v = (engine v \<noteq> [])" and "length (engine v) \<le> 1"
  shows "isSpeakingRef (step ev v) = (engine (step ev v) \<noteq> [])
         \<and> length (engine (step ev v)) \<le> 1"
proof (cases ev)
  case (Speak m c t)
  show ?thesis
  proof (cases "speak_accepts m c t v")
    case False
    then show ?thesis using assms Speak by (simp add: speak_discarded)
  next
    case True
    let ?w = "v\<lparr>lastSpoken := (lastSpoken v)(dedup_key m \<mapsto> t), queue := queue v @ [clean m]\<rparr>"
    have "isSpeakingRef ?w = (engine ?w \<noteq> [])" "length (engine ?w) \<le> 1"
      using assms by simp_all
    then show ?thesis using speakNext_engine [of ?w] True Speak by (simp add: speak_def)
  qed
next
  case Ended
  show ?thesis
  proof (cases "engine v")
    case Nil
    then show ?thesis using assms Ended by simp
  next
    case (Cons u us)
    let ?w = "v\<lparr>engine := us, isSpeakingRef := False, isSpeaking := False\<rparr>"
    have "us = []" using assms(2) Cons by simp
    then have "isSpeakingRef ?w = (engine ?w \<noteq> [])" "length (engine ?w) \<le> 1" by simp_all
    then show ?thesis using speakNext_engine [of ?w] Ended Cons by (simp add: onend_def)
  qed
next
  case Errored
  show ?thesis
  proof (cases "engine v")
    case Nil
    then show ?thesis using assms Errored by simp
  next
    case (Cons u us)
    let ?w = "v\<lparr>engine := us, isSpeakingRef := False, isSpeaking := False\<rparr>"
    have "us = []" using assms(2) Cons by simp
    then have "isSpeakingRef ?w = (engine ?w \<noteq> [])" "length (engine ?w) \<le> 1" by simp_all
    then show ?thesis using speakNext_engine [of ?w] Errored Cons by (simp add: onerror_def)
  qed
qed

lemma run_engine:
  assumes "isSpeakingRef v = (engine v \<noteq> [])" and "length (engine v) \<le> 1"
  shows "isSpeakingRef (run evs v) = (engine (run evs v) \<noteq> [])
         \<and> length (engine (run evs v)) \<le> 1"
  using assms
proof (induction evs arbitrary: v)
  case Nil
  then show ?case by simp
next
  case (Cons ev evs)
  have "isSpeakingRef (step ev v) = (engine (step ev v) \<noteq> [])" "length (engine (step ev v)) \<le> 1"
    using step_engine [OF Cons.prems, of ev] by simp_all
  then show ?case using Cons.IH [of "step ev v"] by simp
qed

section \<open>Voice queue: order and single flight\<close>

text \<open>
  Claim C7. For every sequence of \<open>speak\<close> calls and utterance completions (or failures),
  in any interleaving, the texts handed to the engine so far followed by the pending queue
  are exactly the enqueued texts in enqueue order, so utterances start in FIFO order; the
  engine never holds more than one unfinished utterance, and the hook's speaking flag is
  set exactly when it holds one; and \<open>speakNext\<close> either does nothing or, with no
  utterance in progress, starts the head of the queue and removes it.
\<close>

theorem voice_queue_fifo_no_overlap:
  "spoken (run evs voice0) @ queue (run evs voice0) = enqueued evs voice0
   \<and> length (engine (run evs voice0)) \<le> 1
   \<and> isSpeakingRef (run evs voice0) = (engine (run evs voice0) \<noteq> [])
   \<and> (speakNext v = v
       \<or> (\<not> isSpeakingRef v \<and> queue v \<noteq> []
          \<and> engine (speakNext v) = engine v @ [hd (queue v)]
          \<and> spoken (speakNext v) = spoken v @ [hd (queue v)]
          \<and> queue (speakNext v) = tl (queue v)))"
proof -
  have a: "spoken (run evs voice0) @ queue (run evs voice0) = enqueued evs voice0"
    using run_fifo [of evs voice0] by (simp add: voice0_def)
  have b: "isSpeakingRef (run evs voice0) = (engine (run evs voice0) \<noteq> [])
         \<and> length (engine (run evs voice0)) \<le> 1"
    by (rule run_engine) (simp_all add: voice0_def)
  have c: "speakNext v = v
       \<or> (\<not> isSpeakingRef v \<and> queue v \<noteq> []
          \<and> engine (speakNext v) = engine v @ [hd (queue v)]
          \<and> spoken (speakNext v) = spoken v @ [hd (queue v)]
          \<and> queue (speakNext v) = tl (queue v))"
  proof (cases "speakNext v = v")
    case True
    then show ?thesis by simp
  next
    case False
    then have s: "\<not> isSpeakingRef v" "queue v \<noteq> []"
      "speakNext v = v\<lparr>queue := tl (queue v), isSpeakingRef := True, isSpeaking := True,
                          engine := engine v @ [hd (queue v)], spoken := spoken v @ [hd (queue v)]\<rparr>"
      using speakNext_cases [of v] by blast+
    show ?thesis using s(1,2) by (simp add: s(3))
  qed
  from a b c show ?thesis by blast
qed

theorem voice_queue_fifo_no_overlap_witness:
  "spoken (run [Speak (js ''A'') 8000 1000000, Speak (js ''B'') 8000 1000001,
                Speak (js ''C'') 8000 1000002] voice0) = [js ''A'']
   \<and> queue (run [Speak (js ''A'') 8000 1000000, Speak (js ''B'') 8000 1000001,
                  Speak (js ''C'') 8000 1000002] voice0) = [js ''B'', js ''C'']
   \<and> engine (run [Speak (js ''A'') 8000 1000000, Speak (js ''B'') 8000 1000001,
                   Speak (js ''C'') 8000 1000002] voice0) = [js ''A'']
   \<and> spoken (run [Speak (js ''A'') 8000 1000000, Speak (js ''B'') 8000 1000001,
                   Speak (js ''C'') 8000 1000002, Ended, Errored] voice0)
       = [js ''A'', js ''B'', js ''C'']
   \<and> engine (run [Speak (js ''A'') 8000 1000000, Speak (js ''B'') 8000 1000001,
                   Speak (js ''C'') 8000 1000002, Ended, Errored] voice0) = [js ''C'']
   \<and> enqueued [Speak (js ''A'') 8000 1000000, Speak (js ''B'') 8000 1000001,
                Speak (js ''C'') 8000 1000002, Ended, Errored] voice0
       = [js ''A'', js ''B'', js ''C'']"
proof -
  let ?evs = "[Speak (js ''A'') 8000 1000000, Speak (js ''B'') 8000 1000001,
               Speak (js ''C'') 8000 1000002, Ended, Errored]"
  have sp: "spoken (run ?evs voice0) = [js ''A'', js ''B'', js ''C'']"
    and qu: "queue (run ?evs voice0) = []"
    by (simp_all add: voice0_def speak_def speak_accepts_def speakNext_def onend_def onerror_def
        js_def dedup_key_def letter_or_space_def toLowerCase_def clean_def trim_def
        white_space_def Let_def)
  have en: "enqueued ?evs voice0 = [js ''A'', js ''B'', js ''C'']"
    using voice_queue_fifo_no_overlap [of ?evs voice0] sp qu by simp
  show ?thesis
    using en sp
    by (simp add: voice0_def speak_def speak_accepts_def speakNext_def onend_def onerror_def
        js_def dedup_key_def letter_or_space_def toLowerCase_def clean_def trim_def
        white_space_def Let_def)
qed

section \<open>Voice queue: the cooldown\<close>

text \<open>Events that leave the time recorded for a key as it is.\<close>

lemma step_lastSpoken_other:
  assumes "case ev of Speak m2 c2 t2 \<Rightarrow> dedup_key m2 = k \<longrightarrow> \<not> speak_accepts m2 c2 t2 v | _ \<Rightarrow> True"
  shows "lastSpoken (step ev v) k = lastSpoken v k"
proof (cases ev)
  case (Speak m2 c2 t2)
  show ?thesis
  proof (cases "speak_accepts m2 c2 t2 v")
    case False
    then show ?thesis using Speak by (simp add: speak_discarded)
  next
    case True
    then have "dedup_key m2 \<noteq> k" using assms Speak by auto
    then show ?thesis using True Speak by (simp add: speak_accepted(2))
  qed
next
  case Ended
  then show ?thesis by (cases "engine v") (simp_all add: onend_def speakNext_keeps)
next
  case Errored
  then show ?thesis by (cases "engine v") (simp_all add: onerror_def speakNext_keeps)
qed

lemma step_flags:
  "voiceEnabled (step ev v) = voiceEnabled v" "synth (step ev v) = synth v"
  by (cases ev; cases "engine v"; simp add: speak_flags onend_def onerror_def speakNext_keeps)+

lemma run_in_window:
  assumes "lastSpoken v k = Some t" and "voiceEnabled v" and "synth v"
    and "\<forall>ev \<in> set evs. case ev of Speak m2 c2 t2 \<Rightarrow> dedup_key m2 = k \<longrightarrow> t2 < t + c2
                                 | _ \<Rightarrow> True"
  shows "lastSpoken (run evs v) k = Some t \<and> voiceEnabled (run evs v) \<and> synth (run evs v)"
  using assms
proof (induction evs arbitrary: v)
  case Nil
  then show ?case by simp
next
  case (Cons ev evs)
  have "case ev of Speak m2 c2 t2 \<Rightarrow> dedup_key m2 = k \<longrightarrow> \<not> speak_accepts m2 c2 t2 v | _ \<Rightarrow> True"
    using Cons.prems(1,4) by (cases ev) (auto simp: speak_accepts_iff)
  then have "lastSpoken (step ev v) k = Some t"
    using step_lastSpoken_other [where ev = ev and k = k and v = v] Cons.prems(1) by simp
  moreover have "voiceEnabled (step ev v)" "synth (step ev v)"
    using Cons.prems(2,3) by (simp_all add: step_flags)
  ultimately show ?case using Cons.IH [of "step ev v"] Cons.prems(4) by simp
qed

text \<open>The dedup key: at most 40 characters, each a lower-case letter or a space.\<close>

lemma dedup_key_shape:
  "length (dedup_key msg) \<le> 40"
  "list_all (\<lambda>x. (97 \<le> x \<and> x \<le> 122) \<or> x = 32) (dedup_key msg)"
proof -
  show "length (dedup_key msg) \<le> 40" by (simp add: dedup_key_def)
  have "\<And>x. x \<in> set (map toLowerCase (filter letter_or_space msg))
          \<Longrightarrow> (97 \<le> x \<and> x \<le> 122) \<or> x = 32"
    by (auto simp: letter_or_space_def toLowerCase_def)
  then show "list_all (\<lambda>x. (97 \<le> x \<and> x \<le> 122) \<or> x = 32) (dedup_key msg)"
    unfolding dedup_key_def list_all_iff using set_take_subset by fast
qed

lemma key_fire_variants:
  "dedup_key (js ''FIRE!!'') = js ''fire''" "dedup_key (js ''fire'') = js ''fire''"
  "dedup_key (js ''F1re'') = js ''fre''"
  by (simp_all add: js_def dedup_key_def letter_or_space_def toLowerCase_def)

lemma fire_three_calls:
  assumes "8000 \<le> t0" and "t1 < t0 + 8000" and "t0 + 8000 \<le> t2"
  shows "enqueued [Speak (js ''Fire!'') 8000 t0, Speak (js ''Fire!'') 8000 t1,
                   Speak (js ''Fire!'') 8000 t2] voice0
         = [js ''Fire!'', js ''Fire!'']"
proof -
  let ?F = "js ''Fire!''"
  have a0: "speak_accepts ?F 8000 t0 voice0"
    using assms(1) by (simp add: speak_accepts_iff voice0_def)
  let ?v1 = "speak ?F 8000 t0 voice0"
  have l1: "lastSpoken ?v1 (dedup_key ?F) = Some t0" "voiceEnabled ?v1" "synth ?v1"
    using a0 by (simp_all add: speak_accepted(2) speak_flags voice0_def)
  have a1: "\<not> speak_accepts ?F 8000 t1 ?v1"
    using l1 assms(2) by (simp add: speak_accepts_iff)
  then have v2: "speak ?F 8000 t1 ?v1 = ?v1" by (rule speak_discarded)
  have a2: "speak_accepts ?F 8000 t2 ?v1"
    using l1 assms(3) by (simp add: speak_accepts_iff)
  show ?thesis using a0 a1 a2 v2 by (simp add: clean_fire)
qed

text \<open>
  Claim C6, as amended. Let a call \<open>speak(m, c)\<close> be accepted at time \<open>t\<close>, and let any
  events follow in which no call with the same dedup key is accepted (each such call comes
  before its own cooldown has elapsed since \<open>t\<close>). Then the time recorded for the key is
  still \<open>t\<close>, and a further call \<open>speak(m', c')\<close> with the same dedup key is discarded,
  leaving the state as it is, when its time is below \<open>t + c'\<close> for its own cooldown \<open>c'\<close>,
  and is accepted and enqueued (its time recorded for the key) when its time is \<open>t + c'\<close>
  or later. The dedup key has at most 40 characters, each a lower-case letter or a space,
  and the key of "Fire!" is "fire". In particular \<open>speak("Fire!", 8000)\<close> at \<open>t0\<close>, again
  before \<open>t0 + 8000\<close>, and a third time at \<open>t0 + 8000\<close> or later enqueues twice.
\<close>

theorem speak_cooldown_dedup:
  assumes "speak_accepts m c t v"
    and "dedup_key m' = dedup_key m"
    and "\<forall>ev \<in> set evs. case ev of Speak m2 c2 t2 \<Rightarrow> dedup_key m2 = dedup_key m \<longrightarrow> t2 < t + c2
                                 | _ \<Rightarrow> True"
  shows "(let w = run evs (speak m c t v) in
            lastSpoken w (dedup_key m) = Some t
            \<and> (if t' < t + c'
               then \<not> speak_accepts m' c' t' w \<and> speak m' c' t' w = w
               else speak_accepts m' c' t' w
                    \<and> spoken (speak m' c' t' w) @ queue (speak m' c' t' w)
                       = spoken w @ queue w @ [clean m']
                    \<and> lastSpoken (speak m' c' t' w) (dedup_key m) = Some t'))
         \<and> spoken (speak m c t v) @ queue (speak m c t v) = spoken v @ queue v @ [clean m]
         \<and> length (dedup_key m) \<le> 40
         \<and> list_all (\<lambda>x. (97 \<le> x \<and> x \<le> 122) \<or> x = 32) (dedup_key m)
         \<and> dedup_key (js ''Fire!'') = js ''fire''
         \<and> (8000 \<le> t0 \<and> t1 < t0 + 8000 \<and> t0 + 8000 \<le> t2 \<longrightarrow>
              enqueued [Speak (js ''Fire!'') 8000 t0, Speak (js ''Fire!'') 8000 t1,
                        Speak (js ''Fire!'') 8000 t2] voice0
              = [js ''Fire!'', js ''Fire!''])"
proof -
  let ?v1 = "speak m c t v"
  let ?w = "run evs ?v1"
  have on: "voiceEnabled v" "synth v" using assms(1) by (simp_all add: speak_accepts_iff)
  have l1: "lastSpoken ?v1 (dedup_key m) = Some t"
    using assms(1) by (simp add: speak_accepted(2))
  have w: "lastSpoken ?w (dedup_key m) = Some t \<and> voiceEnabled ?w \<and> synth ?w"
    using run_in_window [where v = ?v1 and k = "dedup_key m" and t = t and evs = evs]
      l1 on assms(3) by (simp add: speak_flags)
  have acc: "speak_accepts m' c' t' ?w \<longleftrightarrow> t + c' \<le> t'"
    using w assms(2) by (simp add: speak_accepts_iff)
  have first: "spoken ?v1 @ queue ?v1 = spoken v @ queue v @ [clean m]"
    using assms(1) by (rule speak_accepted(1))
  have fire: "8000 \<le> t0 \<and> t1 < t0 + 8000 \<and> t0 + 8000 \<le> t2 \<longrightarrow>
              enqueued [Speak (js ''Fire!'') 8000 t0, Speak (js ''Fire!'') 8000 t1,
                        Speak (js ''Fire!'') 8000 t2] voice0
              = [js ''Fire!'', js ''Fire!'']"
    using fire_three_calls [of t0 t1 t2] by blast
  have rest: "spoken ?v1 @ queue ?v1 = spoken v @ queue v @ [clean m]
         \<and> length (dedup_key m) \<le> 40
         \<and> list_all (\<lambda>x. (97 \<le> x \<and> x \<le> 122) \<or> x = 32) (dedup_key m)
         \<and> dedup_key (js ''Fire!'') = js ''fire''
         \<and> (8000 \<le> t0 \<and> t1 < t0 + 8000 \<and> t0 + 8000 \<le> t2 \<longrightarrow>
              enqueued [Speak (js ''Fire!'') 8000 t0, Speak (js ''Fire!'') 8000 t1,
                        Speak (js ''Fire!'') 8000 t2] voice0
              = [js ''Fire!'', js ''Fire!''])"
    using first fire dedup_key_shape [of m] key_fire by blast
  have main: "lastSpoken ?w (dedup_key m) = Some t
            \<and> (if t' < t + c'
               then \<not> speak_accepts m' c' t' ?w \<and> speak m' c' t' ?w = ?w
               else speak_accepts m' c' t' ?w
                    \<and> spoken (speak m' c' t' ?w) @ queue (speak m' c' t' ?w)
                       = spoken ?w @ queue ?w @ [clean m']
                    \<and> lastSpoken (speak m' c' t' ?w) (dedup_key m) = Some t')"
  proof (cases "t' < t + c'")
    case True
    then have "\<not> speak_accepts m' c' t' ?w" using acc by simp
    then show ?thesis using True w by (simp add: speak_discarded)
  next
    case False
    then have a: "speak_accepts m' c' t' ?w" using acc by simp
    show ?thesis
      using False w a speak_accepted [OF a] assms(2) by simp
  qed
  show ?thesis using main rest by (simp only: Let_def) blast
qed

theorem speak_cooldown_dedup_witness:
  "speak_accepts (js ''Fire!'') 8000 1000000 voice0
   \<and> dedup_key (js ''fire'') = dedup_key (js ''Fire!'')
   \<and> dedup_key (js ''FIRE!!'') = dedup_key (js ''Fire!'')
   \<and> \<not> speak_accepts (js ''fire'') 3000 1002999
        (run [Speak (js ''FIRE!!'') 5000 1004000, Ended] (speak (js ''Fire!'') 8000 1000000 voice0))
   \<and> speak_accepts (js ''fire'') 3000 1003000
        (run [Speak (js ''FIRE!!'') 5000 1004000, Ended] (speak (js ''Fire!'') 8000 1000000 voice0))
   \<and> \<not> speak_accepts (js ''fire'') 8000 1007999
        (run [Speak (js ''FIRE!!'') 5000 1004000, Ended] (speak (js ''Fire!'') 8000 1000000 voice0))
   \<and> speak_accepts (js ''fire'') 8000 1008000
        (run [Speak (js ''FIRE!!'') 5000 1004000, Ended] (speak (js ''Fire!'') 8000 1000000 voice0))
   \<and> enqueued [Speak (js ''Fire!'') 8000 1000000, Speak (js ''Fire!'') 8000 1003000,
                Speak (js ''Fire!'') 8000 1008000] voice0
       = [js ''Fire!'', js ''Fire!'']"
proof -
  let ?F = "js ''Fire!''"
  let ?evs = "[Speak (js ''FIRE!!'') 5000 1004000, Ended]"
  have a: "speak_accepts ?F 8000 1000000 voice0"
    by (simp add: speak_accepts_iff voice0_def)
  have k: "dedup_key (js ''fire'') = dedup_key ?F"
    and k2: "dedup_key (js ''FIRE!!'') = dedup_key ?F"
    by (simp_all add: key_fire key_fire_variants)
  have mid: "\<forall>ev \<in> set ?evs. case ev of
               Speak m2 c2 t2 \<Rightarrow> dedup_key m2 = dedup_key ?F \<longrightarrow> t2 < 1000000 + c2
             | _ \<Rightarrow> True"
    by simp
  show ?thesis
    using a k k2
      speak_cooldown_dedup [OF a k mid, where t' = 1002999 and c' = 3000
        and ?t0.0 = 1000000 and ?t1.0 = 1003000 and ?t2.0 = 1008000]
      speak_cooldown_dedup [OF a k mid, where t' = 1003000 and c' = 3000
        and ?t0.0 = 1000000 and ?t1.0 = 1003000 and ?t2.0 = 1008000]
      speak_cooldown_dedup [OF a k mid, where t' = 1007999 and c' = 8000
        and ?t0.0 = 1000000 and ?t1.0 = 1003000 and ?t2.0 = 1008000]
      speak_cooldown_dedup [OF a k mid, where t' = 1008000 and c' = 8000
        and ?t0.0 = 1000000 and ?t1.0 = 1003000 and ?t2.0 = 1008000]
    by (simp add: Let_def)
qed

text \<open>
  Claim C6 as stated fails: \<open>speak\<close> tests the cooldown of the call being made. After
  \<open>speak("Fire!", 8000)\<close> is accepted at 1000000, the call \<open>speak("FIRE", 1000)\<close> at
  1002000, with the same dedup key and before 1008000, is accepted and enqueued; and the
  identical call \<open>speak("Fire!", 8000)\<close> at 1008000 is then discarded.
\<close>

theorem later_call_own_cooldown:
  "speak_accepts (js ''Fire!'') 8000 1000000 voice0
   \<and> dedup_key (js ''FIRE'') = dedup_key (js ''Fire!'')
   \<and> (1002000 :: int) < 1000000 + 8000
   \<and> speak_accepts (js ''FIRE'') 1000 1002000 (speak (js ''Fire!'') 8000 1000000 voice0)
   \<and> enqueued [Speak (js ''Fire!'') 8000 1000000, Speak (js ''FIRE'') 1000 1002000] voice0
       = [js ''Fire!'', js ''FIRE'']
   \<and> (1000000 :: int) + 8000 \<le> 1008000
   \<and> \<not> speak_accepts (js ''Fire!'') 8000 1008000
        (run [Speak (js ''FIRE'') 1000 1002000] (speak (js ''Fire!'') 8000 1000000 voice0))"
  by (simp add: voice0_def speak_def speak_accepts_def speakNext_def
        js_def dedup_key_def letter_or_space_def toLowerCase_def clean_def trim_def
        white_space_def Let_def)

end
